theory Spec2Isabelle
  imports Complex_Main
begin

section \<open>Values shared by the notebooks\<close>

text \<open>
  The notebooks are Python. An exception is a value of \<open>error\<close>, and a call that can
  raise returns \<open>error + 'a\<close> with \<open>Inl\<close> for the exception.
\<close>

datatype error =
    ValueError
  | IndexError
  | ZeroDivisionError
  | OverflowError
  | NameError
  | RuntimeError
  | OSError
  | RequestException

text \<open>
  A value of numpy's float64 is a finite number, an infinity or \<open>nan\<close>. \<open>np.log10\<close>
  gives \<open>-inf\<close> at zero and \<open>nan\<close> below zero (with a RuntimeWarning, never an
  exception); at a positive number it is taken to be the exact logarithm.

  The approximate solver is modelled in double precision, with rounding and overflow. In
  the full solver the numbers are idealised as the reals: rounding, overflow and
  underflow are outside that part of the model.
\<close>

datatype npfloat = Finite real | PosInf | NegInf | NaN

definition np_log10 :: "real \<Rightarrow> npfloat" where
  "np_log10 x = (if 0 < x then Finite (log 10 x) else if x = 0 then NegInf else NaN)"

fun np_neg :: "npfloat \<Rightarrow> npfloat" where
  "np_neg (Finite x) = Finite (- x)"
| "np_neg PosInf = NegInf"
| "np_neg NegInf = PosInf"
| "np_neg NaN = NaN"

section \<open>The weak-acid pH notebook\<close>

subsection \<open>Double precision\<close>

text \<open>
  Rounding to the nearest double, ties to even. A double has 53 significant bits; the
  spacing of the doubles around \<open>x\<close> is \<open>ulp x\<close>, which is \<open>2^(e - 52)\<close> for
  \<open>2^e \<le> |x| < 2^(e+1)\<close> and never less than \<open>2^(-1074)\<close>. A result that rounds beyond the
  largest double is an infinity. The sign of a zero is not modelled.
\<close>

definition binade :: "real \<Rightarrow> int" where
  "binade x = max \<lfloor>log 2 \<bar>x\<bar>\<rfloor> (- 1022)"

definition ulp :: "real \<Rightarrow> real" where
  "ulp x = 2 powr real_of_int (binade x - 52)"

definition round_even :: "real \<Rightarrow> int" where
  "round_even y =
     (let f = \<lfloor>y\<rfloor>; r = y - real_of_int f
      in if r < 1 / 2 then f else if 1 / 2 < r then f + 1 else if even f then f else f + 1)"

definition nearest :: "real \<Rightarrow> real" where
  "nearest x = (if x = 0 then 0 else ulp x * real_of_int (round_even (x / ulp x)))"

definition max_double :: real where
  "max_double = 2 ^ 1024 - 2 ^ 971"

definition fl :: "real \<Rightarrow> npfloat" where
  "fl x =
     (let y = nearest x
      in if max_double < y then PosInf else if y < - max_double then NegInf else Finite y)"

text \<open>
  The operations of the approximate solver: the left operand of a product, sum or
  difference is a finite number there, and so is the divisor. \<open>float_pow2\<close> is Python's
  \<open>a ** 2\<close> on a float, which raises OverflowError where the other operations give an
  infinity.
\<close>

fun dbl_mul :: "real \<Rightarrow> npfloat \<Rightarrow> npfloat" where
  "dbl_mul a (Finite b) = fl (a * b)"
| "dbl_mul a PosInf = (if 0 < a then PosInf else if a < 0 then NegInf else NaN)"
| "dbl_mul a NegInf = (if 0 < a then NegInf else if a < 0 then PosInf else NaN)"
| "dbl_mul a NaN = NaN"

fun dbl_add :: "real \<Rightarrow> npfloat \<Rightarrow> npfloat" where
  "dbl_add a (Finite b) = fl (a + b)"
| "dbl_add a PosInf = PosInf"
| "dbl_add a NegInf = NegInf"
| "dbl_add a NaN = NaN"

fun dbl_sub :: "real \<Rightarrow> npfloat \<Rightarrow> npfloat" where
  "dbl_sub a (Finite b) = fl (a - b)"
| "dbl_sub a PosInf = NegInf"
| "dbl_sub a NegInf = PosInf"
| "dbl_sub a NaN = NaN"

fun dbl_sqrt :: "npfloat \<Rightarrow> npfloat" where
  "dbl_sqrt (Finite b) = (if b < 0 then NaN else fl (sqrt b))"
| "dbl_sqrt PosInf = PosInf"
| "dbl_sqrt NegInf = NaN"
| "dbl_sqrt NaN = NaN"

fun dbl_div :: "npfloat \<Rightarrow> real \<Rightarrow> npfloat" where
  "dbl_div (Finite b) a = fl (b / a)"
| "dbl_div PosInf a = PosInf"
| "dbl_div NegInf a = NegInf"
| "dbl_div NaN a = NaN"

fun np_less_zero :: "npfloat \<Rightarrow> bool" where
  "np_less_zero (Finite b) \<longleftrightarrow> b < 0"
| "np_less_zero PosInf \<longleftrightarrow> False"
| "np_less_zero NegInf \<longleftrightarrow> True"
| "np_less_zero NaN \<longleftrightarrow> False"

fun np_log10_dbl :: "npfloat \<Rightarrow> npfloat" where
  "np_log10_dbl (Finite b) = np_log10 b"
| "np_log10_dbl PosInf = PosInf"
| "np_log10_dbl NegInf = NaN"
| "np_log10_dbl NaN = NaN"

definition float_pow2 :: "real \<Rightarrow> error + real" where
  "float_pow2 a = (case fl (a ^ 2) of Finite p \<Rightarrow> Inr p | _ \<Rightarrow> Inl OverflowError)"

subsection \<open>The approximate (quadratic) equation\<close>

text \<open>
  \<open>calculate_ph_approximate\<close> is wrapped in \<open>np.vectorize\<close>, which calls the body on each
  element as a Python float; this is the body on one element. \<open>poly\<close> is the list
  \<open>[1, ka, -ka * c_ha_zero]\<close>; its three entries are \<open>poly_0\<close>, \<open>poly_1\<close> and \<open>poly_2\<close>.
\<close>

definition calculate_ph_approximate :: "real \<Rightarrow> real \<Rightarrow> error + npfloat" where
  "calculate_ph_approximate c_ha_zero ka =
     (let poly_0 = 1; poly_1 = ka; poly_2 = fl (- ka * c_ha_zero)
      in case float_pow2 poly_1 of
           Inl e \<Rightarrow> Inl e
         | Inr square \<Rightarrow>
             let discriminant = dbl_sub square (dbl_mul (4 * poly_0) poly_2)
             in if np_less_zero discriminant then Inl ValueError
                else
                  let x = dbl_div (dbl_add (- poly_1) (dbl_sqrt discriminant)) (2 * poly_0)
                  in Inr (np_neg (np_log10_dbl x)))"

text \<open>
  The discriminant and the root as the code computes them when \<open>ka ** 2\<close> does not
  overflow, and what it means for a number to come out of an operation unrounded.
\<close>

definition computed_discriminant :: "real \<Rightarrow> real \<Rightarrow> npfloat" where
  "computed_discriminant c_ha_zero ka =
     dbl_sub (nearest (ka ^ 2)) (dbl_mul 4 (fl (- ka * c_ha_zero)))"

definition computed_root :: "real \<Rightarrow> real \<Rightarrow> npfloat" where
  "computed_root c_ha_zero ka =
     dbl_div (dbl_add (- ka) (dbl_sqrt (computed_discriminant c_ha_zero ka))) 2"


subsection \<open>The full (cubic) equation\<close>

text \<open>
  \<open>np.isclose(a, b, atol=atol)\<close> keeps the default \<open>rtol = 1e-05\<close> and tests
  \<open>|a - b| \<le> atol + rtol * |b|\<close>. A quotient whose divisor is zero is \<open>inf\<close> or \<open>nan\<close>
  in numpy (a RuntimeWarning, no exception), and neither is close to a finite number.
\<close>

definition np_div :: "real \<Rightarrow> real \<Rightarrow> npfloat" where
  "np_div a b =
     (if b \<noteq> 0 then Finite (a / b)
      else if a = 0 then NaN else if 0 < a then PosInf else NegInf)"

fun np_isclose :: "npfloat \<Rightarrow> real \<Rightarrow> real \<Rightarrow> bool" where
  "np_isclose (Finite a) b atol \<longleftrightarrow> \<bar>a - b\<bar> \<le> atol + (1 / 100000) * \<bar>b\<bar>"
| "np_isclose PosInf b atol \<longleftrightarrow> False"
| "np_isclose NegInf b atol \<longleftrightarrow> False"
| "np_isclose NaN b atol \<longleftrightarrow> False"

datatype warning = Unphysical_A | Unphysical_HA | Inconsistent

text \<open>
  The two checks count problems in \<open>w\<close>, adding one for each test that fails, and call
  \<open>warnings.warn\<close> for it when \<open>print_warning\<close> is set. The model lists the failed
  tests in the order the code runs them: \<open>w\<close> is the length of the list, and the
  warnings emitted are the list itself or nothing. Both checks are called with a root
  \<open>x\<close> taken from an array by \<open>roots > 0\<close>, so \<open>x\<close> is not zero, and
  \<open>check_solution_base\<close> is reached only after its caller has computed \<open>kw / ka\<close>.
\<close>

definition check_solution_acid ::
  "real \<Rightarrow> real \<Rightarrow> real \<Rightarrow> real \<Rightarrow> bool \<Rightarrow> nat \<times> warning list" where
  "check_solution_acid c_ha_zero ka kw x print_warning =
     (let c_OH = kw / x;
          c_A = x - c_OH;
          c_HA = c_ha_zero - c_A;
          ka' = np_div (x * c_A) c_HA;
          problems =
            (if c_A < 0 then [Unphysical_A] else []) @
            (if c_HA < 0 then [Unphysical_HA] else []) @
            (if \<not> np_isclose ka' ka (1 / 1000000) then [Inconsistent] else [])
      in (length problems, if print_warning then problems else []))"



definition poly_h :: "real \<Rightarrow> real \<Rightarrow> real \<Rightarrow> real list" where
  "poly_h c_ha_zero ka kw = [1, ka, - (kw + ka * c_ha_zero), - ka * kw]"

definition poly_oh :: "real \<Rightarrow> real \<Rightarrow> real \<Rightarrow> real list" where
  "poly_oh c_ha_zero ka kw = (let kb = kw / ka in [1, c_ha_zero + kb, - kw, - kb * kw])"


text \<open>
  What it means for \<open>np.roots\<close> to be exact on a polynomial: the array holds the real
  roots of the polynomial and nothing else. \<open>polyval\<close> is Horner evaluation, as
  \<open>np.polyval\<close>.
\<close>

definition polyval :: "real list \<Rightarrow> real \<Rightarrow> real" where
  "polyval p x = foldl (\<lambda>acc a. acc * x + a) 0 p"

definition roots_exact :: "(real list \<Rightarrow> real list) \<Rightarrow> real list \<Rightarrow> bool" where
  "roots_exact np_roots p \<longleftrightarrow> set (np_roots p) = {x. polyval p x = 0}"



definition negative_concentration_roots :: "real list \<Rightarrow> real list" where
  "negative_concentration_roots p =
     (if p = [1, 4, 1, - 6] then [1, - 2, - 3] else [3/2, - 3/4, - 1/2])"

definition pure_water_roots :: "real list \<Rightarrow> real list" where
  "pure_water_roots p = [1 / 10000000, - 1 / 10000000, 0]"

definition negative_constants_roots :: "real list \<Rightarrow> real list" where
  "negative_constants_roots p =
     (if p = [1, - 6, 11, - 6] then [1, 2, 3] else [- 1, - 1/2, - 1/3])"

definition negative_kw_roots :: "real list \<Rightarrow> real list" where
  "negative_kw_roots p = [- 4, 2, 1]"


section \<open>The Morgan fingerprint notebook\<close>

text \<open>
  The colours: \<open>COLOR_MAP\<close> is a dictionary from five fixed labels to entries of
  \<open>COLOR_FRAC\<close>; the labels are a datatype, so a lookup cannot miss.
\<close>

type_synonym rgb = "real \<times> real \<times> real"

definition COLOR_TUPLES :: "(nat \<times> nat \<times> nat) list" where
  "COLOR_TUPLES =
     [(230, 159, 0), (86, 180, 233), (0, 158, 115), (240, 228, 66),
      (0, 114, 178), (213, 94, 0), (204, 121, 167), (204, 204, 204)]"

definition COLOR_FRAC :: "rgb list" where
  "COLOR_FRAC = map (\<lambda>(r, g, b). (real r / 255, real g / 255, real b / 255)) COLOR_TUPLES"

datatype color_label = Center_atom | Atom_in_a_ring | Aromatic_atom | Other_atoms | Bonds

fun COLOR_MAP :: "color_label \<Rightarrow> rgb" where
  "COLOR_MAP Center_atom = COLOR_FRAC ! 1"
| "COLOR_MAP Atom_in_a_ring = COLOR_FRAC ! 6"
| "COLOR_MAP Aromatic_atom = COLOR_FRAC ! 3"
| "COLOR_MAP Other_atoms = COLOR_FRAC ! 7"
| "COLOR_MAP Bonds = COLOR_FRAC ! 7"

text \<open>
  What the notebook reads of an RDKit molecule: the number of conformers, for each atom
  whether it is aromatic and whether it is in a ring, for each bond its two atoms.
  \<open>GetAtomWithIdx\<close> and \<open>GetBondWithIdx\<close> raise on an index out of range.
\<close>

record atom =
  GetIsAromatic :: bool
  IsInRing :: bool

record bond =
  GetBeginAtomIdx :: nat
  GetEndAtomIdx :: nat

record molecule =
  GetNumConformers :: nat
  mol_atoms :: "atom list"
  mol_bonds :: "bond list"

definition GetAtomWithIdx :: "molecule \<Rightarrow> nat \<Rightarrow> error + atom" where
  "GetAtomWithIdx m i = (if i < length (mol_atoms m) then Inr (mol_atoms m ! i) else Inl RuntimeError)"

definition GetBondWithIdx :: "molecule \<Rightarrow> nat \<Rightarrow> error + bond" where
  "GetBondWithIdx m i = (if i < length (mol_bonds m) then Inr (mol_bonds m ! i) else Inl RuntimeError)"

text \<open>
  \<open>get_atom_colors\<close>: the loop over \<open>atoms\<close>, with the dictionary \<open>colors\<close> as the
  accumulator. \<open>centers\<close> is \<open>None\<close> or a collection of atom indices.
\<close>

fun get_atom_colors_loop ::
  "molecule \<Rightarrow> nat list option \<Rightarrow> nat list \<Rightarrow> (nat \<rightharpoonup> rgb) \<Rightarrow> error + (nat \<rightharpoonup> rgb)" where
  "get_atom_colors_loop molecule centers [] colors = Inr colors"
| "get_atom_colors_loop molecule centers (atom # rest) colors =
     (if (case centers of None \<Rightarrow> False | Some cs \<Rightarrow> atom \<in> set cs)
      then get_atom_colors_loop molecule centers rest (colors(atom \<mapsto> COLOR_MAP Center_atom))
      else
        (case GetAtomWithIdx molecule atom of
           Inl e \<Rightarrow> Inl e
         | Inr a \<Rightarrow>
             if GetIsAromatic a
             then get_atom_colors_loop molecule centers rest
                    (colors(atom \<mapsto> COLOR_MAP Aromatic_atom))
             else if IsInRing a
             then get_atom_colors_loop molecule centers rest
                    (colors(atom \<mapsto> COLOR_MAP Atom_in_a_ring))
             else get_atom_colors_loop molecule centers rest
                    (colors(atom \<mapsto> COLOR_MAP Other_atoms))))"

definition get_atom_colors ::
  "molecule \<Rightarrow> nat list \<Rightarrow> nat list option \<Rightarrow> error + (nat \<rightharpoonup> rgb)" where
  "get_atom_colors molecule atoms centers =
     get_atom_colors_loop molecule centers atoms Map.empty"

definition get_bond_colors :: "nat list \<Rightarrow> (nat \<rightharpoonup> rgb)" where
  "get_bond_colors bonds = foldl (\<lambda>d bond. d(bond \<mapsto> COLOR_MAP Bonds)) Map.empty bonds"

text \<open>
  A Python set of integers is a list without repetition; \<open>set_add\<close> is \<open>set.add\<close>, and
  \<open>list(s)\<close> is the list itself. The order in which Python lists a set is not fixed by
  the language and is not what the model gives.
\<close>

definition set_add :: "'a \<Rightarrow> 'a list \<Rightarrow> 'a list" where
  "set_add x s = (if x \<in> set s then s else s @ [x])"

fun get_environment_loop ::
  "molecule \<Rightarrow> nat list \<Rightarrow> nat list \<Rightarrow> nat list \<Rightarrow> error + (nat list \<times> nat list)" where
  "get_environment_loop molecule [] atoms bonds = Inr (atoms, bonds)"
| "get_environment_loop molecule (bond # env) atoms bonds =
     (case GetBondWithIdx molecule bond of
        Inl e \<Rightarrow> Inl e
      | Inr b \<Rightarrow>
          get_environment_loop molecule env
            (set_add (GetEndAtomIdx b) (set_add (GetBeginAtomIdx b) atoms))
            (set_add bond bonds))"

text \<open>
  \<open>get_environment\<close>. \<open>Chem.FindAtomEnvironmentOfRadiusN\<close> is RDKit's and a parameter of the
  model: it returns a list of bond indices or raises. When the molecule has no conformer
  the code calls \<open>rdDepictor.Compute2DCoords(mol)\<close>, and the notebook never imports
  \<open>rdDepictor\<close>: the call raises NameError.
\<close>

definition get_environment ::
  "(molecule \<Rightarrow> nat \<Rightarrow> nat \<Rightarrow> error + nat list) \<Rightarrow> molecule \<Rightarrow> nat \<Rightarrow> nat
     \<Rightarrow> error + (nat list \<times> nat list \<times> (nat \<rightharpoonup> rgb) \<times> (nat \<rightharpoonup> rgb))" where
  "get_environment FindAtomEnvironmentOfRadiusN molecule center radius =
     (if GetNumConformers molecule = 0 then Inl NameError
      else
        case FindAtomEnvironmentOfRadiusN molecule radius center of
          Inl e \<Rightarrow> Inl e
        | Inr env \<Rightarrow>
            (case get_environment_loop molecule env [center] [] of
               Inl e \<Rightarrow> Inl e
             | Inr (atoms, bonds) \<Rightarrow>
                 (case get_atom_colors molecule atoms (Some [center]) of
                    Inl e \<Rightarrow> Inl e
                  | Inr atom_colors \<Rightarrow>
                      Inr (atoms, bonds, atom_colors, get_bond_colors bonds))))"

text \<open>A molecule for the examples: a chain of three atoms, the middle one in a ring.\<close>

definition example_molecule :: molecule where
  "example_molecule =
     \<lparr>GetNumConformers = 1,
      mol_atoms = [\<lparr>GetIsAromatic = False, IsInRing = False\<rparr>,
                   \<lparr>GetIsAromatic = False, IsInRing = True\<rparr>,
                   \<lparr>GetIsAromatic = True, IsInRing = True\<rparr>],
      mol_bonds = [\<lparr>GetBeginAtomIdx = 0, GetEndAtomIdx = 1\<rparr>,
                   \<lparr>GetBeginAtomIdx = 1, GetEndAtomIdx = 2\<rparr>]\<rparr>"

text \<open>An environment search for the examples: it answers with both bonds of the chain.\<close>

definition example_find_env :: "molecule \<Rightarrow> nat \<Rightarrow> nat \<Rightarrow> error + nat list" where
  "example_find_env m radius center = Inr [0, 1]"

section \<open>The solubility (ESOL) notebook\<close>

subsection \<open>Downloading the data file\<close>

text \<open>
  The world \<open>download_data_file\<close> acts on: the file system (a path names a regular file
  with its contents, a directory, or nothing), whether the operating system lets a path
  be opened for writing, the HTTP requests sent so far, and what was printed. The
  network is the parameter \<open>http_get\<close>: the response to a GET of a URL, or an exception
  of \<open>requests\<close>.
\<close>

datatype node = File string | Dir

datatype message = Exists_skipping string | Downloaded string | Could_not_download nat

record response =
  status_code :: nat
  response_text :: string

record world =
  fs :: "string \<rightharpoonup> node"
  writable :: "string \<Rightarrow> bool"
  requests :: "string list"
  stdout :: "message list"

definition is_file :: "world \<Rightarrow> string \<Rightarrow> bool" where
  "is_file w path = (case fs w path of Some (File _) \<Rightarrow> True | _ \<Rightarrow> False)"

text \<open>\<open>if response:\<close> is \<open>response.ok\<close>: no status from 400 to 599.\<close>

definition response_ok :: "response \<Rightarrow> bool" where
  "response_ok r \<longleftrightarrow> \<not> (400 \<le> status_code r \<and> status_code r < 600)"

text \<open>\<open>open(path, "w")\<close> followed by \<open>write\<close>: the file is created or replaced.\<close>

definition open_write :: "world \<Rightarrow> string \<Rightarrow> string \<Rightarrow> error + world" where
  "open_write w path contents =
     (if fs w path = Some Dir \<or> \<not> writable w path then Inl OSError
      else Inr (w\<lparr>fs := (fs w)(path \<mapsto> File contents)\<rparr>))"

definition download_data_file ::
  "(string \<Rightarrow> error + response) \<Rightarrow> world \<Rightarrow> string \<Rightarrow> string
     \<Rightarrow> (error + string option) \<times> world" where
  "download_data_file http_get w url output_file =
     (if is_file w output_file
      then (Inr (Some output_file), w\<lparr>stdout := stdout w @ [Exists_skipping output_file]\<rparr>)
      else
        let w1 = w\<lparr>requests := requests w @ [url]\<rparr>
        in case http_get url of
             Inl e \<Rightarrow> (Inl e, w1)
           | Inr response \<Rightarrow>
               if response_ok response then
                 (case open_write w1 output_file (response_text response) of
                    Inl e \<Rightarrow> (Inl e, w1)
                  | Inr w2 \<Rightarrow>
                      (Inr (Some output_file),
                       w2\<lparr>stdout := stdout w2 @ [Downloaded output_file]\<rparr>))
               else
                 (Inr None,
                  w1\<lparr>stdout := stdout w1 @ [Could_not_download (status_code response)]\<rparr>))"

text \<open>
  For the examples: a world in which the data file is already there, and a network that
  is down.
\<close>

definition example_world :: world where
  "example_world =
     \<lparr>fs = [''delaney.csv'' \<mapsto> File ''smiles,logS''], writable = (\<lambda>path. True),
      requests = [], stdout = []\<rparr>"

definition offline_http_get :: "string \<Rightarrow> error + response" where
  "offline_http_get url = Inl RequestException"

subsection \<open>Removing highly correlated columns\<close>

text \<open>
  A DataFrame is the list of its columns in order, each a label and its data. The
  correlation matrix is pandas': \<open>DataFrame.corr\<close> is the parameter \<open>df_corr\<close>, giving
  the rows of the matrix, one row and one column per column of the frame, an entry
  being a number or \<open>nan\<close> (\<open>None\<close>). Column labels are taken to be distinct, so that
  \<open>upper[column]\<close> is the column at that position.
\<close>

type_synonym 'a frame = "(string \<times> 'a) list"

definition np_abs :: "real option \<Rightarrow> real option" where
  "np_abs v = map_option abs v"

text \<open>\<open>np.triu(np.ones(shape), k).astype(bool)\<close>: true at row \<open>i\<close>, column \<open>j\<close> iff \<open>j - i \<ge> k\<close>.\<close>

definition np_triu_ones :: "nat \<times> nat \<Rightarrow> int \<Rightarrow> bool list list" where
  "np_triu_ones shape k =
     map (\<lambda>i. map (\<lambda>j. int i + k \<le> int j) [0..<snd shape]) [0..<fst shape]"

text \<open>\<open>df.where(cond)\<close> keeps an entry where \<open>cond\<close> holds and puts \<open>nan\<close> elsewhere.\<close>

definition df_where :: "real option list list \<Rightarrow> bool list list \<Rightarrow> real option list list" where
  "df_where rows cond =
     map (\<lambda>(row, crow). map (\<lambda>(v, keep). if keep then v else None) (zip row crow))
       (zip rows cond)"

definition shape :: "real option list list \<Rightarrow> nat \<times> nat" where
  "shape rows = (length rows, case rows of [] \<Rightarrow> 0 | row # _ \<Rightarrow> length row)"

definition column_at :: "real option list list \<Rightarrow> nat \<Rightarrow> real option list" where
  "column_at rows j = map (\<lambda>row. row ! j) rows"

text \<open>A comparison with \<open>nan\<close> is false.\<close>

definition gt :: "real option \<Rightarrow> real \<Rightarrow> bool" where
  "gt v t = (case v of None \<Rightarrow> False | Some r \<Rightarrow> t < r)"

definition drop_labels :: "string list \<Rightarrow> 'a frame \<Rightarrow> 'a frame" where
  "drop_labels labels df = filter (\<lambda>col. fst col \<notin> set labels) df"

definition drop_correlated ::
  "('a frame \<Rightarrow> real option list list) \<Rightarrow> 'a frame \<Rightarrow> 'a frame" where
  "drop_correlated df_corr rdkit_descriptors =
     (let corr = map (map np_abs) (df_corr rdkit_descriptors);
          n = length rdkit_descriptors;
          upper = df_where corr (np_triu_ones (shape corr) 1);
          to_drop = map (\<lambda>j. fst (rdkit_descriptors ! j))
                      (filter (\<lambda>j. list_ex (\<lambda>v. gt v (975 / 1000)) (column_at upper j)) [0..<n])
      in if length to_drop > 0 then drop_labels to_drop rdkit_descriptors
         else rdkit_descriptors)"

text \<open>
  The step as the specification words it: a column stays iff no column before it has
  with it a correlation above 0.975 in absolute value.
\<close>

definition correlated_with_earlier :: "real option list list \<Rightarrow> nat \<Rightarrow> bool" where
  "correlated_with_earlier corr j \<longleftrightarrow>
     list_ex (\<lambda>i. case corr ! i ! j of None \<Rightarrow> False | Some r \<Rightarrow> 975 / 1000 < \<bar>r\<bar>) [0..<j]"

definition keep_uncorrelated ::
  "('a frame \<Rightarrow> real option list list) \<Rightarrow> 'a frame \<Rightarrow> 'a frame" where
  "keep_uncorrelated df_corr df =
     map (\<lambda>j. df ! j)
       (filter (\<lambda>j. \<not> correlated_with_earlier (df_corr df) j) [0..<length df])"

text \<open>A frame of three descriptors for the examples, and a correlation matrix for it.\<close>

definition example_frame :: "real list frame" where
  "example_frame =
     [(''MolWt'', [1, 2, 3]), (''HeavyAtomMolWt'', [1, 2, 31/10]), (''MolLogP'', [3, 1, 2])]"

definition example_corr :: "real list frame \<Rightarrow> real option list list" where
  "example_corr df =
     [[Some 1, Some (99/100), Some (- 1/2)],
      [Some (99/100), Some 1, Some (- 2/5)],
      [Some (- 1/2), Some (- 2/5), Some 1]]"

section \<open>Properties of the approximate solver\<close>

subsection \<open>Rounding\<close>

lemma ulp_pos: "0 < ulp x"
  by (simp add: ulp_def)


lemma round_even_nonneg: "0 \<le> y \<Longrightarrow> 0 \<le> round_even y"
  by (auto simp: round_even_def Let_def)

lemma round_even_nonpos:
  assumes "y \<le> 0"
  shows "round_even y \<le> 0"
proof (cases "y - real_of_int \<lfloor>y\<rfloor> < 1 / 2")
  case True
  then show ?thesis using assms by (simp add: round_even_def Let_def floor_le_zero)
next
  case False
  then have "real_of_int \<lfloor>y\<rfloor> < y" by linarith
  with assms have "real_of_int \<lfloor>y\<rfloor> < 0" by linarith
  then have "\<lfloor>y\<rfloor> \<le> - 1" by linarith
  then show ?thesis by (auto simp: round_even_def Let_def)
qed

lemma nearest_nonneg: "0 \<le> x \<Longrightarrow> 0 \<le> nearest x"
  using ulp_pos[of x] round_even_nonneg[of "x / ulp x"]
  by (simp add: nearest_def)

lemma nearest_nonpos: "x \<le> 0 \<Longrightarrow> nearest x \<le> 0"
proof -
  assume x: "x \<le> 0"
  have "x / ulp x \<le> 0" using x ulp_pos[of x] by (simp add: divide_nonpos_pos)
  then have "real_of_int (round_even (x / ulp x)) \<le> 0"
    using round_even_nonpos by simp
  then show ?thesis
    using ulp_pos[of x] by (simp add: nearest_def mult_nonneg_nonpos)
qed






lemma fl_cases:
  "fl x = (if max_double < nearest x then PosInf
           else if nearest x < - max_double then NegInf else Finite (nearest x))"
  by (simp add: fl_def Let_def)

lemma max_double_pos: "0 < max_double"
  by (simp add: max_double_def)

lemma fl_nonneg: "0 \<le> x \<Longrightarrow> fl x = PosInf \<or> (\<exists>y. fl x = Finite y \<and> 0 \<le> y)"
  using nearest_nonneg[of x] max_double_pos by (auto simp: fl_cases)

lemma fl_nonpos: "x \<le> 0 \<Longrightarrow> fl x = NegInf \<or> (\<exists>y. fl x = Finite y \<and> y \<le> 0)"
  using nearest_nonpos[of x] max_double_pos by (auto simp: fl_cases)

lemma float_pow2_cases:
  "float_pow2 a = (if max_double < nearest (a ^ 2) then Inl OverflowError
                   else Inr (nearest (a ^ 2)))"
  using nearest_nonneg[of "a ^ 2"] max_double_pos
  by (auto simp: float_pow2_def fl_cases)

lemma calculate_ph_approximate_run:
  "calculate_ph_approximate c ka =
     (if max_double < nearest (ka ^ 2) then Inl OverflowError
      else if np_less_zero (computed_discriminant c ka) then Inl ValueError
      else Inr (np_neg (np_log10_dbl (computed_root c ka))))"
  by (simp add: calculate_ph_approximate_def Let_def float_pow2_cases
      computed_discriminant_def computed_root_def)

lemma discriminant_nonneg:
  assumes "0 \<le> ka" and "0 \<le> c"
  shows "\<not> np_less_zero (computed_discriminant c ka)"
proof -
  have "- ka * c \<le> 0" using assms by (simp add: mult_nonneg_nonneg)
  from fl_nonpos[OF this] consider "fl (- ka * c) = NegInf"
    | y where "fl (- ka * c) = Finite y" "y \<le> 0" by blast
  then have t: "dbl_mul 4 (fl (- ka * c)) = NegInf
     \<or> (\<exists>z. dbl_mul 4 (fl (- ka * c)) = Finite z \<and> z \<le> 0)"
  proof cases
    case 1
    then show ?thesis by simp
  next
    case 2
    then have "4 * y \<le> 0" by simp
    from fl_nonpos[OF this] show ?thesis using 2(1) by simp
  qed
  have p: "0 \<le> nearest (ka ^ 2)" by (simp add: nearest_nonneg)
  from t show ?thesis
  proof
    assume "dbl_mul 4 (fl (- ka * c)) = NegInf"
    then show ?thesis by (simp add: computed_discriminant_def)
  next
    assume "\<exists>z. dbl_mul 4 (fl (- ka * c)) = Finite z \<and> z \<le> 0"
    then obtain z where z: "dbl_mul 4 (fl (- ka * c)) = Finite z" "z \<le> 0" by blast
    then have "0 \<le> nearest (ka ^ 2) - z" using p by simp
    from fl_nonneg[OF this] show ?thesis
      using z(1) by (auto simp: computed_discriminant_def)
  qed
qed

lemma round_even_ge_int: "real_of_int n \<le> y \<Longrightarrow> n \<le> round_even y"
proof -
  assume "real_of_int n \<le> y"
  then have "n \<le> \<lfloor>y\<rfloor>" by linarith
  then show ?thesis by (auto simp: round_even_def Let_def)
qed

lemma round_even_le_int:
  assumes "y \<le> real_of_int n"
  shows "round_even y \<le> n"
proof (cases "y - real_of_int \<lfloor>y\<rfloor> < 1 / 2")
  case True
  have "\<lfloor>y\<rfloor> \<le> n" using assms by linarith
  with True show ?thesis by (simp add: round_even_def Let_def)
next
  case False
  then have "real_of_int \<lfloor>y\<rfloor> < y" by linarith
  with assms have "real_of_int \<lfloor>y\<rfloor> < real_of_int n" by linarith
  then have "\<lfloor>y\<rfloor> + 1 \<le> n" by linarith
  then show ?thesis by (auto simp: round_even_def Let_def)
qed

lemma binade_bounds:
  assumes "x \<noteq> 0"
  shows "\<bar>x\<bar> < 2 powr real_of_int (binade x + 1)"
    and "\<lfloor>log 2 \<bar>x\<bar>\<rfloor> \<ge> - 1022 \<Longrightarrow> 2 powr real_of_int (binade x) \<le> \<bar>x\<bar>"
proof -
  have pos: "0 < \<bar>x\<bar>" using assms by simp
  have "log 2 \<bar>x\<bar> < real_of_int (\<lfloor>log 2 \<bar>x\<bar>\<rfloor> + 1)" by linarith
  also have "\<dots> \<le> real_of_int (binade x + 1)" by (simp add: binade_def)
  finally show "\<bar>x\<bar> < 2 powr real_of_int (binade x + 1)"
    using pos by (simp add: log_less_iff)
  assume "\<lfloor>log 2 \<bar>x\<bar>\<rfloor> \<ge> - 1022"
  then have b: "binade x = \<lfloor>log 2 \<bar>x\<bar>\<rfloor>" by (simp add: binade_def)
  have "real_of_int (binade x) \<le> log 2 \<bar>x\<bar>" unfolding b by linarith
  then show "2 powr real_of_int (binade x) \<le> \<bar>x\<bar>"
    using pos by (simp add: le_log_iff)
qed

lemma nearest_overflows:
  assumes "2 ^ 1024 \<le> x"
  shows "max_double < nearest x"
proof -
  have x0: "x \<noteq> 0" "0 < x"
    using assms zero_less_power[of "2::real" 1024] by linarith+
  have "real_of_int 1024 \<le> log 2 \<bar>x\<bar>"
    using assms x0 by (simp add: le_log_iff powr_realpow)
  then have lg: "1024 \<le> \<lfloor>log 2 \<bar>x\<bar>\<rfloor>" by linarith
  then have b: "1024 \<le> binade x" by (simp add: binade_def)
  define e where "e = binade x"
  define u where "u = ulp x"
  have u: "0 < u" "u = 2 powr real_of_int (e - 52)"
    by (simp_all add: u_def ulp_pos ulp_def e_def)
  have lo: "2 powr real_of_int e \<le> x"
    using binade_bounds(2)[OF x0(1)] lg x0(2) by (simp add: e_def)
  have "2 powr real_of_int e = u * 2 ^ 52"
    by (simp add: u(2) powr_diff powr_realpow[symmetric] del: powr_realpow)
  then have "real_of_int (2 ^ 52) \<le> x / u"
    using lo u(1) by (simp add: pos_le_divide_eq mult.commute)
  then have "2 ^ 52 \<le> round_even (x / u)" by (rule round_even_ge_int)
  then have "real_of_int (2 ^ 52) \<le> real_of_int (round_even (x / u))"
    by (simp only: of_int_le_iff)
  then have "u * 2 ^ 52 \<le> u * real_of_int (round_even (x / u))"
    using u(1) by simp
  then have "2 powr real_of_int e \<le> nearest x"
    using x0(1) \<open>2 powr real_of_int e = u * 2 ^ 52\<close> by (simp add: nearest_def u_def)
  moreover have "(2::real) powr real_of_int 1024 \<le> 2 powr real_of_int e"
    by (rule powr_mono) (use b in \<open>simp_all add: e_def\<close>)
  moreover have "max_double < 2 powr real_of_int 1024"
    by (simp add: max_double_def powr_realpow[symmetric] del: powr_realpow)
  ultimately show ?thesis by linarith
qed

lemma nearest_in_range:
  assumes "\<bar>x\<bar> < 2 ^ 1023"
  shows "\<bar>nearest x\<bar> \<le> max_double"
proof (cases "x = 0")
  case True
  then show ?thesis using max_double_pos by (simp add: nearest_def)
next
  case False
  define e where "e = binade x"
  define u where "u = ulp x"
  have u: "0 < u" "u = 2 powr real_of_int (e - 52)"
    by (simp_all add: u_def ulp_pos ulp_def e_def)
  have "log 2 \<bar>x\<bar> < real_of_int 1023"
    using assms False by (simp add: log_less_iff powr_realpow)
  then have "\<lfloor>log 2 \<bar>x\<bar>\<rfloor> \<le> 1022" by linarith
  then have e: "e \<le> 1022" by (simp add: e_def binade_def)
  have hi: "\<bar>x\<bar> < 2 powr real_of_int (e + 1)"
    using binade_bounds(1)[OF False] by (simp add: e_def)
  have p: "2 powr real_of_int (e + 1) = u * 2 ^ 53"
    by (simp add: u(2) powr_add powr_diff powr_realpow[symmetric] del: powr_realpow)
  have "\<bar>x\<bar> < u * 2 ^ 53"
    using hi by (simp only: p)
  then have "\<bar>x\<bar> / u < 2 ^ 53"
    using u(1) by (simp add: pos_divide_less_eq mult.commute)
  then have "x / u \<le> real_of_int (2 ^ 53)" "real_of_int (- (2 ^ 53)) \<le> x / u"
    using u(1) by (simp_all add: abs_if divide_simps split: if_splits) 
  then have "round_even (x / u) \<le> 2 ^ 53" "- (2 ^ 53) \<le> round_even (x / u)"
    using round_even_le_int[of "x / u" "2 ^ 53"] round_even_ge_int[of "- (2 ^ 53)" "x / u"]
    by blast+
  then have "\<bar>round_even (x / u)\<bar> \<le> 2 ^ 53" by linarith
  then have "real_of_int \<bar>round_even (x / u)\<bar> \<le> real_of_int (2 ^ 53)"
    by (simp only: of_int_le_iff)
  then have "\<bar>real_of_int (round_even (x / u))\<bar> \<le> 2 ^ 53" by simp
  then have "u * \<bar>real_of_int (round_even (x / u))\<bar> \<le> u * 2 ^ 53"
    using u(1) by simp
  moreover have "\<bar>nearest x\<bar> = u * \<bar>real_of_int (round_even (x / u))\<bar>"
    using False u(1) by (simp add: nearest_def u_def[symmetric] abs_mult)
  ultimately have "\<bar>nearest x\<bar> \<le> 2 powr real_of_int (e + 1)"
    by (simp only: p)
  also have "\<dots> \<le> 2 powr real_of_int 1023"
    by (rule powr_mono) (use e in simp_all)
  also have "\<dots> \<le> max_double"
    by (simp add: max_double_def powr_realpow[symmetric] del: powr_realpow)
  finally show ?thesis .
qed



subsection \<open>Running the approximate solver\<close>






lemma overflow_run:
  assumes "2 ^ 512 \<le> ka"
  shows "calculate_ph_approximate c ka = Inl OverflowError"
proof -
  have "(2 ^ 512) ^ 2 \<le> ka ^ 2"
    using assms by (intro power_mono) simp_all
  then have "2 ^ 1024 \<le> ka ^ 2" by simp
  from nearest_overflows[OF this] show ?thesis
    by (simp add: calculate_ph_approximate_run)
qed




text \<open>
  C7 (amended): with \<open>ka \<ge> 0\<close> and \<open>c_ha_zero \<ge> 0\<close> the discriminant the function computes
  is not negative and ValueError is not raised. The function returns a value when
  \<open>ka ** 2\<close> does not overflow, which is so for every \<open>ka < 2^511\<close>, and raises
  OverflowError when it does, which is so for every \<open>ka \<ge> 2^512\<close>.
\<close>

theorem calculate_ph_approximate_returns:
  fixes ka c_ha_zero :: real
  assumes "0 \<le> ka" and "0 \<le> c_ha_zero"
  shows "\<not> np_less_zero (computed_discriminant c_ha_zero ka)
       \<and> calculate_ph_approximate c_ha_zero ka \<noteq> Inl ValueError
       \<and> (max_double < nearest (ka ^ 2) \<longrightarrow>
            calculate_ph_approximate c_ha_zero ka = Inl OverflowError)
       \<and> (nearest (ka ^ 2) \<le> max_double \<longrightarrow>
            (\<exists>v. calculate_ph_approximate c_ha_zero ka = Inr v))
       \<and> (ka < 2 ^ 511 \<longrightarrow> (\<exists>v. calculate_ph_approximate c_ha_zero ka = Inr v))
       \<and> (2 ^ 512 \<le> ka \<longrightarrow> calculate_ph_approximate c_ha_zero ka = Inl OverflowError)"
proof -
  note d = discriminant_nonneg[OF assms]
  have small: "nearest (ka ^ 2) \<le> max_double" if "ka < 2 ^ 511"
  proof -
    have "ka ^ 2 < (2 ^ 511) ^ 2"
      using that assms(1) by (intro power_strict_mono) simp_all
    then have "\<bar>ka ^ 2\<bar> < 2 ^ 1023" by simp
    from nearest_in_range[OF this] show ?thesis by linarith
  qed
  show ?thesis
    using d small overflow_run[of ka c_ha_zero]
    by (auto simp: calculate_ph_approximate_run)
qed

theorem calculate_ph_approximate_returns_witness:
  "(0::real) \<le> 1 \<and> (0::real) \<le> 2 \<and> (1::real) < 2 ^ 511
   \<and> calculate_ph_approximate 2 1 \<noteq> Inl ValueError
   \<and> (\<exists>v. calculate_ph_approximate 2 1 = Inr v)"
  using calculate_ph_approximate_returns[where ka = 1 and c_ha_zero = 2] by simp

text \<open>
  The function does not return for every \<open>ka \<ge> 0\<close> and \<open>c_ha_zero \<ge> 0\<close>: at \<open>ka = 2^600\<close>,
  \<open>c_ha_zero = 1\<close> it raises OverflowError.
\<close>

theorem calculate_ph_approximate_returns_counterexample:
  "(0::real) \<le> 2 ^ 600 \<and> (0::real) \<le> 1
   \<and> (0::real) \<le> (2 ^ 600) ^ 2 + 4 * 2 ^ 600 * 1
   \<and> calculate_ph_approximate 1 (2 ^ 600) = Inl OverflowError"
proof -
  have "calculate_ph_approximate 1 (2 ^ 600) = Inl OverflowError"
    by (rule overflow_run) simp
  then show ?thesis by simp
qed

section \<open>Properties of the full solver\<close>

subsection \<open>The two cubics\<close>


lemma cubic_pos_root_exists:
  fixes a b d :: real
  assumes "0 \<le> a" "0 < d"
  shows "\<exists>x. 0 < x \<and> x ^ 3 + a * x ^ 2 - b * x - d = 0"
proof -
  define f where "f = (\<lambda>x::real. x ^ 3 + a * x ^ 2 - b * x - d)"
  define M where "M = 1 + \<bar>b\<bar> + d"
  have M1: "1 \<le> M" using assms by (simp add: M_def)
  have f0: "f 0 \<le> 0" using assms by (simp add: f_def)
  have "M \<le> M * M" using M1 by simp
  have "M * (M * M - \<bar>b\<bar>) \<ge> M * (M - \<bar>b\<bar>)"
    using M1 \<open>M \<le> M * M\<close> by (intro mult_left_mono) auto
  moreover have "M * (M - \<bar>b\<bar>) \<ge> 1 * (1 + d)"
    using M1 assms by (intro mult_mono) (auto simp: M_def)
  ultimately have "M * (M * M - \<bar>b\<bar>) \<ge> 1 + d" by simp
  moreover have "b * M \<le> \<bar>b\<bar> * M" using M1 by (intro mult_right_mono) auto
  moreover have "0 \<le> a * M ^ 2" using assms by simp
  ultimately have fM: "0 \<le> f M"
    by (simp add: f_def power3_eq_cube power2_eq_square algebra_simps)
  have cont: "continuous_on {0..M} f"
    unfolding f_def by (intro continuous_intros)
  have "\<exists>x\<ge>0. x \<le> M \<and> f x = 0"
    using IVT'[of f 0 0 M] f0 fM M1 cont by auto
  then obtain x where x: "0 \<le> x" "f x = 0" by blast
  have "x \<noteq> 0" using x(2) assms by (auto simp: f_def)
  with x show ?thesis by (auto simp: f_def intro!: exI[of _ x])
qed


lemma polyval_poly_h:
  "polyval (poly_h c ka kw) x = x ^ 3 + ka * x ^ 2 - (kw + ka * c) * x - ka * kw"
  by (simp add: polyval_def poly_h_def power3_eq_cube power2_eq_square algebra_simps)

lemma polyval_poly_oh:
  "polyval (poly_oh c ka kw) x
     = x ^ 3 + (c + kw / ka) * x ^ 2 - kw * x - (kw / ka) * kw"
  by (simp add: polyval_def poly_oh_def Let_def power3_eq_cube power2_eq_square algebra_simps)



lemma np_isclose_self: "0 \<le> atol \<Longrightarrow> np_isclose (Finite a) a atol"
  by simp








subsection \<open>All three roots are real\<close>

text \<open>
  For positive \<open>c_ha_zero\<close>, \<open>ka\<close> and \<open>kw\<close> each of the two cubics has three distinct
  real roots, one positive and two negative. A cubic has no more than three roots, so
  none of them is complex: this is the case in which \<open>np.roots\<close> returns a real array.
\<close>

lemma cubic_three_real_roots:
  fixes a b d :: real
  assumes a: "0 < a" and d: "0 < d" and ab: "d < a * b"
  defines "f \<equiv> \<lambda>x. x ^ 3 + a * x ^ 2 - b * x - d"
  shows "\<exists>r1 r2 r3. r3 < - a \<and> - a < r2 \<and> r2 < 0 \<and> 0 < r1
           \<and> f r1 = 0 \<and> f r2 = 0 \<and> f r3 = 0"
proof -
  have cont: "continuous_on S f" for S
    unfolding f_def by (intro continuous_intros)
  obtain r1 where r1: "0 < r1" "f r1 = 0"
    using cubic_pos_root_exists[of a d b] a d unfolding f_def by auto
  have f0: "f 0 = - d" by (simp add: f_def)
  have fa: "f (- a) = a * b - d"
    by (simp add: f_def power3_eq_cube power2_eq_square algebra_simps)
  have "\<exists>x\<ge>- a. x \<le> 0 \<and> f x = 0"
    using IVT2'[of f 0 0 "- a"] f0 fa a d ab cont by auto
  then obtain r2 where r2: "- a \<le> r2" "r2 \<le> 0" "f r2 = 0" by blast
  have "r2 \<noteq> - a" using r2(3) fa ab by auto
  moreover have "r2 \<noteq> 0" using r2(3) f0 d by auto
  ultimately have r2': "- a < r2" "r2 < 0" using r2 by auto
  define s where "s = 1 + \<bar>b\<bar> + d"
  define N where "N = - (a + s)"
  have s1: "1 \<le> s" "\<bar>b\<bar> \<le> s" using d by (simp_all add: s_def)
  have N1: "1 \<le> \<bar>N\<bar>" "N < - a" using a s1 by (simp_all add: N_def)
  have sq: "\<bar>N\<bar> \<le> N\<^sup>2"
    using N1(1) by (metis abs_ge_zero mult_left_mono mult_1_right power2_abs power2_eq_square)
  have "- (b * N) \<le> \<bar>b\<bar> * \<bar>N\<bar>"
    by (metis abs_ge_self abs_minus_cancel abs_mult)
  also have "\<dots> \<le> s * N\<^sup>2"
    using s1 sq by (intro mult_mono) auto
  finally have "- (b * N) \<le> s * N\<^sup>2" .
  moreover have "f N = - (s * N\<^sup>2) - b * N - d"
    by (simp add: f_def N_def power3_eq_cube power2_eq_square algebra_simps)
  ultimately have fN: "f N \<le> 0" using d by simp
  have "\<exists>x\<ge>N. x \<le> - a \<and> f x = 0"
    using IVT'[of f N 0 "- a"] fN fa ab N1(2) cont by auto
  then obtain r3 where r3: "r3 \<le> - a" "f r3 = 0" by blast
  have "r3 \<noteq> - a" using r3(2) fa ab by auto
  with r3 have "r3 < - a" by simp
  with r1 r2' r2(3) r3(2) show ?thesis by blast
qed

lemma acid_cubic_roots_real:
  fixes c ka kw :: real
  assumes "0 < c" "0 < ka" "0 < kw"
  shows "\<exists>r1 r2 r3. r3 < r2 \<and> r2 < r1
           \<and> polyval (poly_h c ka kw) r1 = 0
           \<and> polyval (poly_h c ka kw) r2 = 0
           \<and> polyval (poly_h c ka kw) r3 = 0"
proof -
  have "ka * kw < ka * (kw + ka * c)" using assms by simp
  from cubic_three_real_roots[OF assms(2) _ this] assms
  obtain r1 r2 r3 where "r3 < - ka" "- ka < r2" "r2 < 0" "0 < r1"
    "polyval (poly_h c ka kw) r1 = 0" "polyval (poly_h c ka kw) r2 = 0"
    "polyval (poly_h c ka kw) r3 = 0"
    unfolding polyval_poly_h by force
  then show ?thesis by (intro exI[of _ r1] exI[of _ r2] exI[of _ r3]) auto
qed

lemma base_cubic_roots_real:
  fixes c ka kw :: real
  assumes "0 < c" "0 < ka" "0 < kw"
  shows "\<exists>r1 r2 r3. r3 < r2 \<and> r2 < r1
           \<and> polyval (poly_oh c ka kw) r1 = 0
           \<and> polyval (poly_oh c ka kw) r2 = 0
           \<and> polyval (poly_oh c ka kw) r3 = 0"
proof -
  have kb: "0 < kw / ka" using assms by simp
  have a: "0 < c + kw / ka" using assms(1) kb by linarith
  have d: "0 < kw / ka * kw" using assms by simp
  have "kw / ka * kw < (c + kw / ka) * kw"
    using assms by (simp add: algebra_simps)
  from cubic_three_real_roots[OF a d this]
  obtain r1 r2 r3 where "r3 < - (c + kw / ka)" "- (c + kw / ka) < r2" "r2 < 0" "0 < r1"
    "polyval (poly_oh c ka kw) r1 = 0" "polyval (poly_oh c ka kw) r2 = 0"
    "polyval (poly_oh c ka kw) r3 = 0"
    unfolding polyval_poly_oh by force
  then show ?thesis by (intro exI[of _ r1] exI[of _ r2] exI[of _ r3]) auto
qed

subsection \<open>The acid branch\<close>





subsection \<open>Running the fallback\<close>




subsection \<open>Existence of the selected roots\<close>



subsection \<open>The fallback to the base equation\<close>



lemma cubic_factored_roots:
  fixes a b c :: real
  assumes "\<And>x. polyval p x = (x - a) * (x - b) * (x - c)"
  shows "{x. polyval p x = 0} = {a, b, c}"
  by (auto simp: assms)

lemma negative_concentration_roots_exact:
  "roots_exact negative_concentration_roots (poly_h (- 5/8) 4 (3/2))"
  "roots_exact negative_concentration_roots (poly_oh (- 5/8) 4 (3/2))"
proof -
  have "polyval (poly_h (- 5/8) 4 (3/2)) x = (x - 1) * (x - (- 2)) * (x - (- 3))" for x
    unfolding polyval_poly_h by algebra
  from cubic_factored_roots[OF this]
  show "roots_exact negative_concentration_roots (poly_h (- 5/8) 4 (3/2))"
    by (simp add: roots_exact_def negative_concentration_roots_def) (simp add: poly_h_def)
  have k: "3 / 2 / 4 = (3/8::real)" by simp
  have "polyval (poly_oh (- 5/8) 4 (3/2)) x = (x - 3/2) * (x - (- 3/4)) * (x - (- 1/2))" for x
    unfolding polyval_poly_oh k by algebra
  from cubic_factored_roots[OF this]
  show "roots_exact negative_concentration_roots (poly_oh (- 5/8) 4 (3/2))"
    by (simp add: roots_exact_def negative_concentration_roots_def) (simp add: poly_oh_def)
qed

lemma pure_water_roots_exact:
  "roots_exact pure_water_roots (poly_h 0 0 (1 / 100000000000000))"
proof -
  have "polyval (poly_h 0 0 (1 / 100000000000000)) x
          = (x - 1 / 10000000) * (x - (- 1 / 10000000)) * (x - 0)" for x
    unfolding polyval_poly_h by algebra
  from cubic_factored_roots[OF this] show ?thesis
    by (simp add: roots_exact_def pure_water_roots_def)
qed

lemma negative_constants_roots_exact:
  "roots_exact negative_constants_roots
     (poly_h (5/3) (- 6) (- 1))"
  "roots_exact negative_constants_roots
     (poly_oh (5/3) (- 6) (- 1))"
proof -
  have "polyval (poly_h (5/3) (- 6) (- 1)) x = (x - 1) * (x - 2) * (x - 3)" for x
    unfolding polyval_poly_h by algebra
  from cubic_factored_roots[OF this]
  show "roots_exact negative_constants_roots
     (poly_h (5/3) (- 6) (- 1))"
    by (simp add: roots_exact_def negative_constants_roots_def) (simp add: poly_h_def)
  have k: "- 1 / - 6 = (1/6::real)" by simp
  have "polyval (poly_oh (5/3) (- 6) (- 1)) x = (x - (- 1)) * (x - (- 1/2)) * (x - (- 1/3))" for x
    unfolding polyval_poly_oh k by algebra
  from cubic_factored_roots[OF this]
  show "roots_exact negative_constants_roots
     (poly_oh (5/3) (- 6) (- 1))"
    by (simp add: roots_exact_def negative_constants_roots_def) (simp add: poly_oh_def)
qed


subsection \<open>What a passed check guarantees\<close>




lemma negative_kw_roots_exact: "roots_exact negative_kw_roots (poly_h 18 1 (- 8))"
proof -
  have "polyval (poly_h 18 1 (- 8)) x = (x - (- 4)) * (x - 2) * (x - 1)" for x
    unfolding polyval_poly_h by algebra
  from cubic_factored_roots[OF this] show ?thesis
    by (simp add: roots_exact_def negative_kw_roots_def)
qed

text \<open>
  The first of the two does not depend on which double \<open>np.roots\<close> returns for the
  positive root. The deviation of \<open>x*c_A/c_HA\<close> from \<open>ka\<close> is the value of the acid cubic
  at \<open>x\<close> divided by \<open>c_ha_zero*x - x^2 + kw\<close>, and at every double within \<open>9e-12\<close> of the
  root (a double is not strictly between the two neighbours) the check passes and the
  deviation is more than \<open>1e-6\<close>.
\<close>

lemma acid_check_deviation:
  fixes x c ka kw :: real
  assumes x: "x \<noteq> 0" and q: "c * x - x ^ 2 + kw \<noteq> 0"
  shows "x * (x - kw / x) / (c - (x - kw / x)) - ka
           = (x ^ 3 + ka * x ^ 2 - (kw + ka * c) * x - ka * kw) / (c * x - x ^ 2 + kw)"
proof -
  have a: "x - kw / x = (x ^ 2 - kw) / x"
    using x by (simp add: field_simps power2_eq_square)
  have h: "c - (x - kw / x) = (c * x - x ^ 2 + kw) / x"
    using x by (simp add: field_simps power2_eq_square)
  have "x * (x - kw / x) / (c - (x - kw / x))
          = x * ((x ^ 2 - kw) / x) / ((c * x - x ^ 2 + kw) / x)"
    by (simp only: h) (simp only: a)
  also have "\<dots> = (x ^ 2 - kw) * x / (c * x - x ^ 2 + kw)"
    using x by simp
  finally have "x * (x - kw / x) / (c - (x - kw / x)) - ka
          = ((x ^ 2 - kw) * x - ka * (c * x - x ^ 2 + kw)) / (c * x - x ^ 2 + kw)"
    using q by (simp add: diff_divide_distrib)
  also have "(x ^ 2 - kw) * x - ka * (c * x - x ^ 2 + kw)
          = x ^ 3 + ka * x ^ 2 - (kw + ka * c) * x - ka * kw"
    by (simp add: algebra_simps power3_eq_cube power2_eq_square)
  finally show ?thesis .
qed

lemma large_ka_every_double:
  fixes x :: real
  assumes lo: "999998999993 / 10 ^ 12 \<le> x" and hi: "x \<le> 999999000011 / 10 ^ 12"
    and gap: "x \<le> 9007190247559841 / 2 ^ 53 \<or> 9007190247559842 / 2 ^ 53 \<le> x"
  shows "check_solution_acid 1 1000000 (1 / 10 ^ 14) x False = (0, [])
       \<and> 1 / 1000000 < \<bar>x * (x - (1 / 10 ^ 14) / x) / (1 - (x - (1 / 10 ^ 14) / x)) - 1000000\<bar>"
proof -
  define P where "P = (\<lambda>x::real. x ^ 3 + 1000000 * x ^ 2 - (1 / 10 ^ 14 + 1000000 * 1) * x
                          - 1000000 * (1 / 10 ^ 14))"
  define Q where "Q = (\<lambda>x::real. 1 * x - x ^ 2 + 1 / 10 ^ 14)"
  define L :: real where "L = 999998999993 / 10 ^ 12"
  define H :: real where "H = 999999000011 / 10 ^ 12"
  define B :: real where "B = 9007190247559841 / 2 ^ 53"
  define A :: real where "A = 9007190247559842 / 2 ^ 53"
  have Pmono: "P a \<le> P b" if "9 / 10 \<le> a" "a \<le> b" for a b
  proof -
    have "P b - P a = (b - a) * (b ^ 2 + a * b + a ^ 2 + 1000000 * (a + b)
                                  - (1 / 10 ^ 14 + 1000000))"
      unfolding P_def by algebra
    moreover have "0 \<le> b - a" using that by simp
    moreover have "0 \<le> b ^ 2 + a * b + a ^ 2 + 1000000 * (a + b) - (1 / 10 ^ 14 + 1000000)"
    proof -
      have "0 \<le> a * b" using that by simp
      moreover have "1 / 10 ^ 14 + 1000000 \<le> 1000000 * (a + b)" using that by simp
      ultimately show ?thesis
        using zero_le_power2[of a] zero_le_power2[of b] by linarith
    qed
    ultimately have "0 \<le> P b - P a" by simp
    then show ?thesis by simp
  qed
  have Qmono: "Q b \<le> Q a" if "9 / 10 \<le> a" "a \<le> b" for a b
  proof -
    have "Q a - Q b = (b - a) * (a + b - 1)"
      unfolding Q_def by (simp add: algebra_simps power2_eq_square)
    moreover have "0 \<le> b - a" "0 \<le> a + b - 1" using that by simp_all
    ultimately have "0 \<le> Q a - Q b" by simp
    then show ?thesis by simp
  qed
  have xL: "L \<le> x" and xH: "x \<le> H" using lo hi by (simp_all add: L_def H_def)
  have L9: "9 / 10 \<le> L" by (simp add: L_def)
  have x9: "9 / 10 \<le> x" using xL L9 by linarith
  have x0: "0 < x" using x9 by linarith
  have QH: "0 < Q H" by (simp add: Q_def H_def power2_eq_square power3_eq_cube)
  have Qx: "0 < Q x" using Qmono[OF x9 xH] QH by linarith
  have dev: "x * (x - (1 / 10 ^ 14) / x) / (1 - (x - (1 / 10 ^ 14) / x)) - 1000000 = P x / Q x"
    using acid_check_deviation[of x 1 "1 / 10 ^ 14" 1000000] x0 Qx
    by (simp add: P_def Q_def)
  have bounds: "\<bar>P x / Q x\<bar> \<le> 10 \<and> 1 / 1000000 < \<bar>P x / Q x\<bar>"
  proof -
    from gap consider "x \<le> B" | "A \<le> x" by (auto simp: A_def B_def)
    then show ?thesis
    proof cases
      case 1
      have PB: "P B < 0" by (simp add: P_def B_def power2_eq_square power3_eq_cube)
      have Px: "P x \<le> P B" using Pmono[OF x9 1] .
      have PL: "P L \<le> P x" using Pmono[OF L9 xL] .
      have QB: "Q B \<le> Q x" using Qmono[OF x9 1] .
      have QL: "Q x \<le> Q L" using Qmono[OF L9 xL] .
      have QB0: "0 < Q B" by (simp add: Q_def B_def power2_eq_square power3_eq_cube)
      have n1: "- P L \<le> 10 * Q B" by (simp add: P_def Q_def L_def B_def power2_eq_square power3_eq_cube)
      have n2: "Q L < 1000000 * (- P B)" by (simp add: P_def Q_def L_def B_def power2_eq_square power3_eq_cube)
      have "- P x \<le> 10 * Q x" using PL n1 QB by linarith
      moreover have "Q x < 1000000 * (- P x)" using QL n2 Px by linarith
      moreover have "P x < 0" using Px PB by linarith
      ultimately show ?thesis
        using Qx by (simp add: abs_if field_simps)
    next
      case 2
      have A9: "9 / 10 \<le> A" by (simp add: A_def)
      have PA: "0 < P A" by (simp add: P_def A_def power2_eq_square power3_eq_cube)
      have Px: "P A \<le> P x" using Pmono[OF A9 2] .
      have PH: "P x \<le> P H" using Pmono[OF x9 xH] .
      have QA: "Q x \<le> Q A" using Qmono[OF A9 2] .
      have QHx: "Q H \<le> Q x" using Qmono[OF x9 xH] .
      have n1: "P H \<le> 10 * Q H" by (simp add: P_def Q_def H_def power2_eq_square power3_eq_cube)
      have n2: "Q A < 1000000 * P A" by (simp add: P_def Q_def A_def power2_eq_square power3_eq_cube)
      have "P x \<le> 10 * Q x" using PH n1 QHx by linarith
      moreover have "Q x < 1000000 * P x" using QA n2 Px by linarith
      moreover have "0 < P x" using Px PA by linarith
      ultimately show ?thesis
        using Qx by (simp add: abs_if field_simps)
    qed
  qed
  have cA: "\<not> x - (1 / 10 ^ 14) / x < 0"
  proof -
    have "(9 / 10) * (9 / 10) \<le> x * x"
      using x9 by (intro mult_mono) simp_all
    moreover have "(1::real) / 10 ^ 14 \<le> (9 / 10) * (9 / 10)" by simp
    ultimately have "1 / 10 ^ 14 \<le> x * x" by linarith
    then have "(1 / 10 ^ 14) / x \<le> x" using x0 by (simp add: field_simps)
    then show ?thesis by simp
  qed
  have cHA: "1 - (x - (1 / 10 ^ 14) / x) = Q x / x"
    using x0 by (simp add: Q_def field_simps power2_eq_square)
  have cHA0: "0 < 1 - (x - (1 / 10 ^ 14) / x)"
    using Qx x0 by (simp only: cHA zero_less_divide_iff) simp
  have close: "np_isclose (np_div (x * (x - (1 / 10 ^ 14) / x)) (1 - (x - (1 / 10 ^ 14) / x)))
                 1000000 (1 / 1000000)"
  proof -
    have "\<bar>x * (x - (1 / 10 ^ 14) / x) / (1 - (x - (1 / 10 ^ 14) / x)) - 1000000\<bar> \<le> 10"
      using bounds dev by simp
    then show ?thesis using cHA0 by (simp add: np_div_def)
  qed
  have "check_solution_acid 1 1000000 (1 / 10 ^ 14) x False = (0, [])"
    using cA cHA0 close by (simp add: check_solution_acid_def Let_def)
  then show ?thesis using bounds dev by simp
qed

section \<open>Properties of the atom environment\<close>

lemma set_set_add: "set (set_add x s) = insert x (set s)"
  by (auto simp: set_add_def)

lemma distinct_set_add: "distinct s \<Longrightarrow> distinct (set_add x s)"
  by (simp add: set_add_def)

lemma get_environment_loop_result:
  assumes "get_environment_loop m env atoms bonds = Inr (atoms', bonds')"
  shows "set atoms \<subseteq> set atoms'
       \<and> set bonds' = set bonds \<union> set env
       \<and> (\<forall>b\<in>set env. b < length (mol_bonds m)
             \<and> GetBeginAtomIdx (mol_bonds m ! b) \<in> set atoms'
             \<and> GetEndAtomIdx (mol_bonds m ! b) \<in> set atoms')
       \<and> (distinct atoms \<longrightarrow> distinct atoms')
       \<and> (distinct bonds \<longrightarrow> distinct bonds')"
  using assms
proof (induction env arbitrary: atoms bonds)
  case Nil
  then show ?case by simp
next
  case (Cons b env)
  from Cons.prems obtain bd where bd: "GetBondWithIdx m b = Inr bd"
    and rest: "get_environment_loop m env
        (set_add (GetEndAtomIdx bd) (set_add (GetBeginAtomIdx bd) atoms)) (set_add b bonds)
        = Inr (atoms', bonds')"
    by (auto split: sum.splits)
  from bd have b: "b < length (mol_bonds m)" "bd = mol_bonds m ! b"
    by (auto simp: GetBondWithIdx_def split: if_splits)
  note IH = Cons.IH[OF rest]
  show ?case
    using IH b by (auto simp: set_set_add distinct_set_add)
qed

lemma get_atom_colors_loop_dom:
  "get_atom_colors_loop m centers atoms colors = Inr colors'
     \<Longrightarrow> dom colors' = dom colors \<union> set atoms"
proof (induction atoms arbitrary: colors)
  case Nil
  then show ?case by simp
next
  case (Cons a atoms)
  from Cons.prems obtain v where
    "get_atom_colors_loop m centers atoms (colors(a \<mapsto> v)) = Inr colors'"
    by (auto simp del: COLOR_MAP.simps split: if_splits sum.splits)
  from Cons.IH[OF this] have "dom colors' = insert a (dom colors) \<union> set atoms"
    by (simp only: dom_fun_upd) simp
  then show ?case by simp
qed

lemma dom_foldl_update:
  "dom (foldl (\<lambda>d k. d(k \<mapsto> f k)) d0 ks) = dom d0 \<union> set ks"
  by (induction ks arbitrary: d0) auto

lemma dom_get_bond_colors: "dom (get_bond_colors bonds) = set bonds"
  by (simp add: get_bond_colors_def dom_foldl_update)

text \<open>
  C10: whenever \<open>get_environment\<close> returns, the returned list of atoms contains the
  center atom, every bond in the returned list of bonds is a bond of the molecule whose
  two atoms are in the returned list of atoms, and the keys of the two colour
  dictionaries are exactly the returned atoms and the returned bonds. The two lists have
  no repetition.
\<close>

theorem get_environment_result:
  assumes "get_environment FindAtomEnvironmentOfRadiusN molecule center radius
             = Inr (atoms, bonds, atom_colors, bond_colors)"
  shows "center \<in> set atoms
       \<and> (\<forall>b\<in>set bonds. \<exists>bd. GetBondWithIdx molecule b = Inr bd
             \<and> GetBeginAtomIdx bd \<in> set atoms \<and> GetEndAtomIdx bd \<in> set atoms)
       \<and> dom atom_colors = set atoms
       \<and> dom bond_colors = set bonds
       \<and> distinct atoms \<and> distinct bonds"
proof -
  from assms obtain env where
    loop: "get_environment_loop molecule env [center] [] = Inr (atoms, bonds)"
    and ac: "get_atom_colors molecule atoms (Some [center]) = Inr atom_colors"
    and bc: "bond_colors = get_bond_colors bonds"
    by (auto simp: get_environment_def split: if_splits sum.splits prod.splits)
  note r = get_environment_loop_result[OF loop]
  have "center \<in> set atoms" using r by auto
  moreover have "\<forall>b\<in>set bonds. \<exists>bd. GetBondWithIdx molecule b = Inr bd
             \<and> GetBeginAtomIdx bd \<in> set atoms \<and> GetEndAtomIdx bd \<in> set atoms"
    using r by (auto simp: GetBondWithIdx_def)
  moreover have "dom atom_colors = set atoms"
    using get_atom_colors_loop_dom[OF ac[unfolded get_atom_colors_def]] by simp
  moreover have "dom bond_colors = set bonds"
    by (simp add: bc dom_get_bond_colors)
  moreover have "distinct atoms" "distinct bonds" using r by auto
  ultimately show ?thesis by blast
qed

lemma get_environment_loop_returns:
  assumes "\<forall>b\<in>set env. b < length (mol_bonds m)"
  shows "\<exists>r. get_environment_loop m env atoms bonds = Inr r"
  using assms by (induction env arbitrary: atoms bonds) (auto simp: GetBondWithIdx_def)

lemma get_atom_colors_loop_returns:
  assumes "\<forall>a\<in>set atoms. a < length (mol_atoms m) \<or> (\<exists>cs. centers = Some cs \<and> a \<in> set cs)"
  shows "\<exists>r. get_atom_colors_loop m centers atoms colors = Inr r"
  using assms
  by (induction atoms arbitrary: colors) (auto simp: GetAtomWithIdx_def split: option.splits)

lemma get_environment_loop_atoms:
  assumes "get_environment_loop m env atoms bonds = Inr (atoms', bonds')"
  shows "set atoms' = set atoms
           \<union> (\<Union>b\<in>set env. {GetBeginAtomIdx (mol_bonds m ! b), GetEndAtomIdx (mol_bonds m ! b)})"
  using assms
proof (induction env arbitrary: atoms bonds)
  case Nil
  then show ?case by simp
next
  case (Cons b env)
  from Cons.prems obtain bd where bd: "GetBondWithIdx m b = Inr bd"
    and rest: "get_environment_loop m env
        (set_add (GetEndAtomIdx bd) (set_add (GetBeginAtomIdx bd) atoms)) (set_add b bonds)
        = Inr (atoms', bonds')"
    by (auto split: sum.splits)
  from bd have b: "bd = mol_bonds m ! b"
    by (auto simp: GetBondWithIdx_def split: if_splits)
  show ?case
    using Cons.IH[OF rest] b by (auto simp: set_set_add)
qed

lemma get_environment_returns:
  assumes conf: "GetNumConformers m \<noteq> 0"
    and env: "F m radius center = Inr env"
    and ok: "\<forall>b\<in>set env. b < length (mol_bonds m)
               \<and> GetBeginAtomIdx (mol_bonds m ! b) < length (mol_atoms m)
               \<and> GetEndAtomIdx (mol_bonds m ! b) < length (mol_atoms m)"
  shows "\<exists>r. get_environment F m center radius = Inr r"
proof -
  from ok have "\<forall>b\<in>set env. b < length (mol_bonds m)" by blast
  from get_environment_loop_returns[OF this]
  obtain atoms bonds where loop: "get_environment_loop m env [center] [] = Inr (atoms, bonds)"
    by fastforce
  have "\<forall>a\<in>set atoms. a < length (mol_atoms m)
           \<or> (\<exists>cs. Some [center] = Some cs \<and> a \<in> set cs)"
    using get_environment_loop_atoms[OF loop] ok by auto
  from get_atom_colors_loop_returns[OF this]
  obtain ac where "get_atom_colors m atoms (Some [center]) = Inr ac"
    unfolding get_atom_colors_def by blast
  then show ?thesis
    using conf env loop by (simp add: get_environment_def)
qed

theorem get_environment_result_witness:
  "\<exists>atom_colors bond_colors.
      get_environment example_find_env example_molecule 1 1
        = Inr ([1, 0, 2], [0, 1], atom_colors, bond_colors)
    \<and> dom atom_colors = {1, 0, 2} \<and> dom bond_colors = {0, 1}"
proof -
  have run: "get_environment example_find_env example_molecule 1 1
      = Inr ([1, 0, 2], [0, 1],
             [1 \<mapsto> COLOR_MAP Center_atom, 0 \<mapsto> COLOR_MAP Other_atoms, 2 \<mapsto> COLOR_MAP Aromatic_atom],
             [0 \<mapsto> COLOR_MAP Bonds, 1 \<mapsto> COLOR_MAP Bonds])"
    by (simp add: get_environment_def example_molecule_def GetBondWithIdx_def set_add_def
        get_atom_colors_def GetAtomWithIdx_def get_bond_colors_def example_find_env_def)
  from get_environment_result[OF run] show ?thesis
    using run by auto
qed

section \<open>Properties of the download\<close>

text \<open>
  C8: when \<open>output_file\<close> names an existing regular file, \<open>download_data_file\<close> returns
  \<open>output_file\<close>, sends no HTTP request and leaves every file as it was: the only
  effect is the printed message. The result does not depend on the network.
\<close>

theorem download_data_file_skips_existing:
  assumes "is_file w output_file"
  shows "fst (download_data_file http_get w url output_file) = Inr (Some output_file)
       \<and> requests (snd (download_data_file http_get w url output_file)) = requests w
       \<and> fs (snd (download_data_file http_get w url output_file)) = fs w
       \<and> writable (snd (download_data_file http_get w url output_file)) = writable w
       \<and> stdout (snd (download_data_file http_get w url output_file))
            = stdout w @ [Exists_skipping output_file]
       \<and> download_data_file http_get w url output_file
            = download_data_file other_http_get w url output_file"
  using assms by (simp add: download_data_file_def)

theorem download_data_file_skips_existing_witness:
  "is_file example_world ''delaney.csv''
   \<and> fst (download_data_file offline_http_get example_world
              ''http://example.org/delaney.csv'' ''delaney.csv'')
       = Inr (Some ''delaney.csv'')
   \<and> requests (snd (download_data_file offline_http_get example_world
              ''http://example.org/delaney.csv'' ''delaney.csv''))
       = []
   \<and> fs (snd (download_data_file offline_http_get example_world
              ''http://example.org/delaney.csv'' ''delaney.csv''))
       = fs example_world"
proof -
  have f: "is_file example_world ''delaney.csv''"
    by (simp add: is_file_def example_world_def)
  have r: "requests example_world = []"
    by (simp add: example_world_def)
  from download_data_file_skips_existing[OF f, of offline_http_get
      "''http://example.org/delaney.csv''"]
  show ?thesis using f r by simp
qed

lemma download_data_file_requests_otherwise:
  assumes "\<not> is_file w output_file"
  shows "requests (snd (download_data_file http_get w url output_file)) = requests w @ [url]"
  using assms
  by (auto simp: download_data_file_def Let_def open_write_def split: sum.splits)

section \<open>Properties of the correlation filter\<close>

lemma filter_by_index:
  "filter Q xs = map ((!) xs) (filter (\<lambda>j. Q (xs ! j)) [0..<length xs])"
proof -
  have "filter Q xs = filter Q (map ((!) xs) [0..<length xs])"
    by (simp add: map_nth)
  also have "\<dots> = map ((!) xs) (filter (Q \<circ> (!) xs) [0..<length xs])"
    by (simp only: filter_map)
  finally show ?thesis by (simp add: comp_def)
qed

lemma gt_np_abs:
  "gt (np_abs v) t \<longleftrightarrow> (case v of None \<Rightarrow> False | Some r \<Rightarrow> t < \<bar>r\<bar>)"
  by (simp add: gt_def np_abs_def split: option.splits)

lemma list_ex_upt: "list_ex P [0..<j] \<longleftrightarrow> (\<exists>i<j. P i)"
  by (auto simp: list_ex_iff)

lemma shape_square:
  assumes "length rows = n" and "\<forall>row\<in>set rows. length row = n"
  shows "shape rows = (n, n)"
  using assms by (cases rows) (auto simp: shape_def)

lemma upper_entry:
  assumes len: "length C = n" and rows: "\<forall>row\<in>set C. length row = n"
    and i: "i < n" and j: "j < n"
  shows "df_where (map (map np_abs) C) (np_triu_ones (n, n) 1) ! i ! j
           = (if i < j then np_abs (C ! i ! j) else None)"
proof -
  have li: "length (C ! i) = n" using len rows i by simp
  show ?thesis
    using len i j li by (simp add: df_where_def np_triu_ones_def)
qed

lemma length_upper:
  assumes "length C = n"
  shows "length (df_where (map (map np_abs) C) (np_triu_ones (n, n) 1)) = n"
  using assms by (simp add: df_where_def np_triu_ones_def)

lemma column_exceeds_iff:
  assumes len: "length C = n" and rows: "\<forall>row\<in>set C. length row = n" and j: "j < n"
  shows "list_ex (\<lambda>v. gt v (975 / 1000))
           (column_at (df_where (map (map np_abs) C) (np_triu_ones (n, n) 1)) j)
         \<longleftrightarrow> correlated_with_earlier C j"
proof -
  let ?U = "df_where (map (map np_abs) C) (np_triu_ones (n, n) 1)"
  have "list_ex (\<lambda>v. gt v (975 / 1000)) (column_at ?U j)
          \<longleftrightarrow> (\<exists>i<n. gt (?U ! i ! j) (975 / 1000))"
  proof
    assume "list_ex (\<lambda>v. gt v (975 / 1000)) (column_at ?U j)"
    then obtain row where "row \<in> set ?U" "gt (row ! j) (975 / 1000)"
      by (auto simp: list_ex_iff column_at_def)
    then show "\<exists>i<n. gt (?U ! i ! j) (975 / 1000)"
      using length_upper[OF len] by (metis in_set_conv_nth)
  next
    assume "\<exists>i<n. gt (?U ! i ! j) (975 / 1000)"
    then obtain i where i: "i < n" "gt (?U ! i ! j) (975 / 1000)" by blast
    have "?U ! i \<in> set ?U"
      using i(1) length_upper[OF len] by simp
    with i(2) show "list_ex (\<lambda>v. gt v (975 / 1000)) (column_at ?U j)"
      unfolding list_ex_iff column_at_def by (simp only: set_map) blast
  qed
  also have "\<dots> \<longleftrightarrow> (\<exists>i<n. i < j \<and> gt (np_abs (C ! i ! j)) (975 / 1000))"
  proof -
    have "gt (?U ! i ! j) (975 / 1000) \<longleftrightarrow> i < j \<and> gt (np_abs (C ! i ! j)) (975 / 1000)"
      if "i < n" for i
      using upper_entry[OF len rows that j] by (simp add: gt_def)
    then show ?thesis by blast
  qed
  also have "\<dots> \<longleftrightarrow> (\<exists>i<j. gt (np_abs (C ! i ! j)) (975 / 1000))"
    using j by (meson less_trans)
  also have "\<dots> \<longleftrightarrow> correlated_with_earlier C j"
    unfolding correlated_with_earlier_def list_ex_upt gt_np_abs by (rule refl)
  finally show ?thesis .
qed

lemma drop_correlated_eq:
  fixes df :: "'a frame"
  assumes dist: "distinct (map fst df)"
    and len: "length (df_corr df) = length df"
    and rows: "\<forall>row\<in>set (df_corr df). length row = length df"
  shows "drop_correlated df_corr df = keep_uncorrelated df_corr df"
proof -
  define n where "n = length df"
  define C where "C = df_corr df"
  define U where "U = df_where (map (map np_abs) C) (np_triu_ones (n, n) 1)"
  define to_drop where "to_drop = map (\<lambda>j. fst (df ! j))
     (filter (\<lambda>j. list_ex (\<lambda>v. gt v (975 / 1000)) (column_at U j)) [0..<n])"
  have lenC: "length C = n" and rowsC: "\<forall>row\<in>set C. length row = n"
    using len rows by (simp_all add: C_def n_def)
  have sh: "shape (map (map np_abs) C) = (n, n)"
    using lenC rowsC by (intro shape_square) auto
  have run: "drop_correlated df_corr df = drop_labels to_drop df"
  proof (cases "to_drop = []")
    case True
    then show ?thesis
      by (simp add: drop_correlated_def Let_def sh drop_labels_def
          to_drop_def U_def C_def[symmetric] n_def[symmetric])
  next
    case False
    then show ?thesis
      by (simp add: drop_correlated_def Let_def sh
          to_drop_def U_def C_def[symmetric] n_def[symmetric])
  qed
  have member: "fst (df ! j) \<in> set to_drop \<longleftrightarrow> correlated_with_earlier C j" if j: "j < n" for j
  proof
    assume "fst (df ! j) \<in> set to_drop"
    then obtain k where k: "k < n" "list_ex (\<lambda>v. gt v (975 / 1000)) (column_at U k)"
      and e: "fst (df ! k) = fst (df ! j)"
      by (auto simp: to_drop_def)
    have "map fst df ! k = map fst df ! j" using e k j by (simp add: n_def)
    moreover have "k < length (map fst df)" "j < length (map fst df)"
      using k j by (simp_all add: n_def)
    ultimately have "k = j"
      using dist by (simp only: nth_eq_iff_index_eq)
    then show "correlated_with_earlier C j"
      using k(2) column_exceeds_iff[OF lenC rowsC j] by (simp add: U_def)
  next
    assume "correlated_with_earlier C j"
    then have "list_ex (\<lambda>v. gt v (975 / 1000)) (column_at U j)"
      using column_exceeds_iff[OF lenC rowsC j] by (simp add: U_def)
    then show "fst (df ! j) \<in> set to_drop"
      using j by (auto simp: to_drop_def)
  qed
  have "drop_labels to_drop df
          = map ((!) df) (filter (\<lambda>j. fst (df ! j) \<notin> set to_drop) [0..<length df])"
    unfolding drop_labels_def by (rule filter_by_index)
  also have "filter (\<lambda>j. fst (df ! j) \<notin> set to_drop) [0..<length df]
          = filter (\<lambda>j. \<not> correlated_with_earlier C j) [0..<length df]"
    by (rule filter_cong) (auto simp: member n_def)
  finally show ?thesis
    by (simp add: run keep_uncorrelated_def C_def)
qed


text \<open>
  C9: the correlation filter drops a column iff the absolute value of its correlation
  with some column before it in the frame's column order exceeds 0.975; the other
  columns are kept, unchanged and in their order.
\<close>

theorem drop_correlated_spec:
  fixes df :: "'a frame"
  assumes dist: "distinct (map fst df)"
    and len: "length (df_corr df) = length df"
    and rows: "\<forall>row\<in>set (df_corr df). length row = length df"
  shows "drop_correlated df_corr df = keep_uncorrelated df_corr df
       \<and> (\<forall>j<length df. df ! j \<in> set (drop_correlated df_corr df) \<longleftrightarrow>
             \<not> (\<exists>i<j. case df_corr df ! i ! j of
                          None \<Rightarrow> False | Some r \<Rightarrow> 975 / 1000 < \<bar>r\<bar>))"
proof -
  have eq: "drop_correlated df_corr df = keep_uncorrelated df_corr df"
    by (rule drop_correlated_eq[where df_corr = df_corr, OF assms])
  have d: "distinct df" using dist by (rule distinct_map[THEN iffD1, THEN conjunct1])
  have "df ! j \<in> set (keep_uncorrelated df_corr df)
          \<longleftrightarrow> \<not> correlated_with_earlier (df_corr df) j" if j: "j < length df" for j
  proof
    assume "df ! j \<in> set (keep_uncorrelated df_corr df)"
    then obtain k where k: "k < length df" "\<not> correlated_with_earlier (df_corr df) k"
      and e: "df ! k = df ! j"
      by (auto simp: keep_uncorrelated_def)
    from e d k(1) j have "k = j" by (simp only: nth_eq_iff_index_eq)
    with k(2) show "\<not> correlated_with_earlier (df_corr df) j" by simp
  next
    assume "\<not> correlated_with_earlier (df_corr df) j"
    with j show "df ! j \<in> set (keep_uncorrelated df_corr df)"
      by (auto simp: keep_uncorrelated_def)
  qed
  then show ?thesis
    unfolding eq correlated_with_earlier_def list_ex_upt by blast
qed

theorem drop_correlated_spec_witness:
  "distinct (map fst example_frame)
   \<and> drop_correlated example_corr example_frame
       = [(''MolWt'', [1, 2, 3]), (''MolLogP'', [3, 1, 2])]"
proof -
  have dist: "distinct (map fst example_frame)"
    by (simp add: example_frame_def)
  have len: "length (example_corr example_frame) = length example_frame"
    by (simp add: example_frame_def example_corr_def)
  have rows: "\<forall>row\<in>set (example_corr example_frame). length row = length example_frame"
    by (simp add: example_frame_def example_corr_def)
  have "keep_uncorrelated example_corr example_frame
          = [(''MolWt'', [1, 2, 3]), (''MolLogP'', [3, 1, 2])]"
    by (simp add: keep_uncorrelated_def correlated_with_earlier_def example_frame_def
        example_corr_def upt_rec)
  with drop_correlated_spec[where df_corr = example_corr, OF dist len rows] dist
  show ?thesis by simp
qed


lemma drop_correlated_example_run:
  "drop_correlated example_corr example_frame
     = [(''MolWt'', [1, 2, 3]), (''MolLogP'', [3, 1, 2])]"
  by code_simp

end
